theory Spec2Isabelle
  imports Main
begin

section \<open>Text\<close>

text \<open>
  The program is Python; its questions and attributes are \<open>str\<close> values, sequences of
  code points. A text is modelled as a \<^typ>\<open>string\<close> in which every \<^typ>\<open>char\<close> is one code
  point, so the model covers the texts whose code points lie below 256. The character
  classes below are those of CPython 3.11 on that range.
\<close>

definition ord :: "char \<Rightarrow> nat" where
  "ord c = of_char c"

definition between :: "nat \<Rightarrow> nat \<Rightarrow> char \<Rightarrow> bool" where
  "between lo hi c = (lo \<le> ord c \<and> ord c \<le> hi)"

abbreviation backslash :: char where
  "backslash \<equiv> CHR 0x5C"

abbreviation newline :: char where
  "newline \<equiv> CHR 0x0A"

definition isspace :: "char \<Rightarrow> bool" where
  \<comment> \<open>\<open>str.isspace\<close>, the characters that \<open>str.strip()\<close> removes\<close>
  "isspace c = (between 9 13 c \<or> between 28 32 c \<or> ord c = 133 \<or> ord c = 160)"

definition is_digit :: "char \<Rightarrow> bool" where
  "is_digit c = between 48 57 c"

definition is_octdigit :: "char \<Rightarrow> bool" where
  "is_octdigit c = between 48 55 c"

definition is_ascii_letter :: "char \<Rightarrow> bool" where
  "is_ascii_letter c = (between 65 90 c \<or> between 97 122 c)"

definition is_word :: "char \<Rightarrow> bool" where
  \<comment> \<open>the class \<open>\w\<close> of a \<open>str\<close> pattern: alphanumeric or underscore\<close>
  "is_word c = (is_digit c \<or> is_ascii_letter c \<or> ord c = 95 \<or> ord c = 170
     \<or> between 178 179 c \<or> ord c = 181 \<or> between 185 186 c \<or> between 188 190 c
     \<or> between 192 214 c \<or> between 216 246 c \<or> between 248 255 c)"

definition ascii_lower :: "char \<Rightarrow> char" where
  "ascii_lower c = (if between 65 90 c then char_of (ord c + 32) else c)"

definition strip :: "string \<Rightarrow> string" where
  \<comment> \<open>\<open>str.strip()\<close>: white space removed at both ends\<close>
  "strip s = rev (dropWhile isspace (rev (dropWhile isspace s)))"

definition startswith :: "string \<Rightarrow> string \<Rightarrow> bool" where
  "startswith s p = (take (length p) s = p)"

section \<open>Regular expressions\<close>

text \<open>
  The fragment of the \<open>re\<close> module that the program uses: literals, alternation,
  concatenation, the greedy \<open>.*\<close>, the word boundary \<open>\b\<close> and one capturing group.
  A matcher state is the current index and the span of group 1; \<open>run\<close> lists the states
  in which a pattern can end, in the order in which the backtracking matcher tries them,
  so the head of the list is the match that \<open>re\<close> reports. With \<open>IGNORECASE\<close> a
  literal of ASCII characters matches a character of the text when both have the same
  lower-case form; among the code points below 256 only the two ASCII cases of a letter do.
\<close>

datatype regex =
    Lit string
  | Alt regex regex
  | Seq regex regex
  | DotStar
  | WordBoundary
  | Group regex

type_synonym span = "nat \<times> nat"

type_synonym mstate = "nat \<times> span option"

definition literal_at :: "bool \<Rightarrow> string \<Rightarrow> string \<Rightarrow> nat \<Rightarrow> bool" where
  "literal_at ignorecase p s i =
     (if ignorecase then map ascii_lower (take (length p) (drop i s)) = map ascii_lower p
      else take (length p) (drop i s) = p)"

definition at_boundary :: "string \<Rightarrow> nat \<Rightarrow> bool" where
  \<comment> \<open>\<open>\b\<close>: exactly one of the characters before and after the index is a word character\<close>
  "at_boundary s i =
     ((0 < i \<and> i \<le> length s \<and> is_word (s ! (i - 1))) \<noteq> (i < length s \<and> is_word (s ! i)))"

fun run :: "bool \<Rightarrow> regex \<Rightarrow> string \<Rightarrow> mstate \<Rightarrow> mstate list" where
  "run ic (Lit p) s (i, g) = (if literal_at ic p s i then [(i + length p, g)] else [])"
| "run ic (Alt a b) s st = run ic a s st @ run ic b s st"
| "run ic (Seq a b) s st = concat (map (run ic b s) (run ic a s st))"
| "run ic DotStar s (i, g) =
     map (\<lambda>k. (i + k, g)) (rev [0..<Suc (length (takeWhile (\<lambda>c. c \<noteq> newline) (drop i s)))])"
| "run ic WordBoundary s (i, g) = (if at_boundary s i then [(i, g)] else [])"
| "run ic (Group a) s (i, g) = map (\<lambda>(j, _). (j, Some (i, j))) (run ic a s (i, g))"

fun groups :: "regex \<Rightarrow> nat" where
  "groups (Group a) = Suc (groups a)"
| "groups (Alt a b) = groups a + groups b"
| "groups (Seq a b) = groups a + groups b"
| "groups _ = 0"

text \<open>A match: where it starts, where it ends, and the span of group 1 when it took part.\<close>

type_synonym rmatch = "nat \<times> nat \<times> span option"

fun first_match :: "bool \<Rightarrow> regex \<Rightarrow> string \<Rightarrow> nat list \<Rightarrow> rmatch option" where
  "first_match ic r s [] = None"
| "first_match ic r s (i # js) =
     (case run ic r s (i, None) of
        [] \<Rightarrow> first_match ic r s js
      | (j, g) # _ \<Rightarrow> Some (i, j, g))"

definition re_search :: "bool \<Rightarrow> regex \<Rightarrow> string \<Rightarrow> rmatch option" where
  \<comment> \<open>\<open>re.search\<close>: the match at the leftmost start index that has one\<close>
  "re_search ic r s = first_match ic r s [0..<Suc (length s)]"

section \<open>Replacement templates\<close>

text \<open>
  \<open>re.sub\<close> reads its replacement text as a template (\<open>parse_template\<close> of CPython 3.11):
  a backslash and the character after it form one token, which is a group reference, an
  octal or control-character escape, or stays as it is; an unknown escape of an ASCII letter
  is refused. The exceptions that the parser raises (\<open>re.error\<close>, and \<open>IndexError\<close> for
  a group name that is an identifier) are the single value \<open>TemplateError\<close>.
\<close>

datatype error = TemplateError | KeyError string | AttributeError

datatype token = Chr char | Esc char

datatype piece = Literal string | GroupRef nat

fun tokens :: "string \<Rightarrow> error + token list" where
  "tokens [] = Inr []"
| "tokens [c] = (if c = backslash then Inl TemplateError else Inr [Chr c])"
| "tokens (c # d # cs) =
     (if c = backslash then map_sum id ((#) (Esc d)) (tokens cs)
      else map_sum id ((#) (Chr c)) (tokens (d # cs)))"

definition digit_value :: "char \<Rightarrow> nat" where
  "digit_value c = ord c - 48"

definition int_space :: "char \<Rightarrow> bool" where
  \<comment> \<open>the white space that \<open>int()\<close> skips around a number\<close>
  "int_space c = (between 9 13 c \<or> ord c = 32 \<or> ord c = 133 \<or> ord c = 160)"

fun digit_groups :: "string \<Rightarrow> bool" where
  \<comment> \<open>decimal digits, with single underscores between digits allowed\<close>
  "digit_groups [] = False"
| "digit_groups [c] = is_digit c"
| "digit_groups (c # d # cs) =
     (is_digit c \<and> (if d = CHR ''_'' then digit_groups cs else digit_groups (d # cs)))"

definition py_int :: "string \<Rightarrow> int option" where
  \<comment> \<open>\<open>int(name)\<close>: \<open>None\<close> is \<open>ValueError\<close>, also raised beyond 4300 digits\<close>
  "py_int s =
     (let t = rev (dropWhile int_space (rev (dropWhile int_space s)));
          u = (case t of [] \<Rightarrow> [] | c # cs \<Rightarrow> if c = CHR ''+'' \<or> c = CHR ''-'' then cs else t);
          ds = filter is_digit u;
          v = int (foldl (\<lambda>a c. 10 * a + digit_value c) 0 ds)
      in if digit_groups u \<and> length ds \<le> 4300
         then Some (if take 1 t = ''-'' then - v else v) else None)"

definition next_chr :: "token list \<Rightarrow> char option" where
  "next_chr ts = (case ts of Chr d # _ \<Rightarrow> Some d | _ \<Rightarrow> None)"

fun getuntil :: "token list \<Rightarrow> (string \<times> nat) option" where
  \<comment> \<open>the name up to the closing \<open>>\<close>, and the number of tokens read, \<open>>\<close> included\<close>
  "getuntil [] = None"
| "getuntil (Chr c # ts) =
     (if c = CHR ''>'' then Some ([], 1)
      else map_option (\<lambda>(name, k). (c # name, Suc k)) (getuntil ts))"
| "getuntil (Esc c # ts) =
     map_option (\<lambda>(name, k). (backslash # c # name, Suc k)) (getuntil ts)"

definition group_piece :: "nat \<Rightarrow> nat \<Rightarrow> nat \<Rightarrow> (piece \<times> nat) option" where
  "group_piece n index k = (if index > n then None else Some (GroupRef index, k))"

definition escapes :: "char \<Rightarrow> char option" where
  "escapes c =
     (if c = CHR ''a'' then Some (CHR 0x07) else if c = CHR ''b'' then Some (CHR 0x08)
      else if c = CHR ''f'' then Some (CHR 0x0C) else if c = CHR ''n'' then Some (CHR 0x0A)
      else if c = CHR ''r'' then Some (CHR 0x0D) else if c = CHR ''t'' then Some (CHR 0x09)
      else if c = CHR ''v'' then Some (CHR 0x0B) else if c = backslash then Some backslash
      else None)"

definition escape :: "nat \<Rightarrow> char \<Rightarrow> token list \<Rightarrow> (piece \<times> nat) option" where
  \<comment> \<open>the piece for a backslash token with character \<open>c\<close> in a pattern of \<open>n\<close> groups, and
      the number of the following tokens \<open>ts\<close> that belong to it; \<open>None\<close> is an error\<close>
  "escape n c ts =
     (if c = CHR ''g'' then
        (if next_chr ts = Some (CHR ''<'') then
           (case getuntil (tl ts) of
              None \<Rightarrow> None
            | Some (name, k) \<Rightarrow>
                (case py_int name of
                   None \<Rightarrow> None
                 | Some index \<Rightarrow> if index < 0 then None else group_piece n (nat index) (Suc k)))
         else None)
      else if c = CHR ''0'' then
        (case next_chr ts of
           None \<Rightarrow> Some (Literal [CHR 0x00], 0)
         | Some d \<Rightarrow>
             if is_octdigit d then
               (case next_chr (tl ts) of
                  None \<Rightarrow> Some (Literal [char_of (digit_value d)], 1)
                | Some e \<Rightarrow>
                    if is_octdigit e
                    then Some (Literal [char_of ((8 * digit_value d + digit_value e) mod 256)], 2)
                    else Some (Literal [char_of (digit_value d)], 1))
             else Some (Literal [CHR 0x00], 0))
      else if is_digit c then
        (case next_chr ts of
           None \<Rightarrow> group_piece n (digit_value c) 0
         | Some d \<Rightarrow>
             if is_digit d then
               (case next_chr (tl ts) of
                  None \<Rightarrow> group_piece n (10 * digit_value c + digit_value d) 1
                | Some e \<Rightarrow>
                    if is_octdigit c \<and> is_octdigit d \<and> is_octdigit e then
                      (let v = 64 * digit_value c + 8 * digit_value d + digit_value e
                       in if v > 255 then None else Some (Literal [char_of v], 2))
                    else group_piece n (10 * digit_value c + digit_value d) 1)
             else group_piece n (digit_value c) 0)
      else
        (case escapes c of
           Some x \<Rightarrow> Some (Literal [x], 0)
         | None \<Rightarrow> if is_ascii_letter c then None else Some (Literal [backslash, c], 0)))"

fun parse_template :: "nat \<Rightarrow> token list \<Rightarrow> error + piece list" where
  "parse_template n [] = Inr []"
| "parse_template n (Chr c # ts) = map_sum id ((#) (Literal [c])) (parse_template n ts)"
| "parse_template n (Esc c # ts) =
     (case escape n c ts of
        None \<Rightarrow> Inl TemplateError
      | Some (p, k) \<Rightarrow> map_sum id ((#) p) (parse_template n (drop k ts)))"

fun expand_piece :: "string \<Rightarrow> rmatch \<Rightarrow> piece \<Rightarrow> string" where
  "expand_piece s m (Literal l) = l"
| "expand_piece s (i, j, g) (GroupRef k) =
     (if k = 0 then take (j - i) (drop i s)
      else case g of None \<Rightarrow> [] | Some (a, b) \<Rightarrow> take (b - a) (drop a s))"

definition expand_template :: "piece list \<Rightarrow> string \<Rightarrow> rmatch \<Rightarrow> string" where
  "expand_template ps s m = concat (map (expand_piece s m) ps)"

definition re_sub :: "regex \<Rightarrow> string \<Rightarrow> string \<Rightarrow> error + string" where
  \<comment> \<open>\<open>re.sub(pattern, repl, string, count=1)\<close>: the template is parsed, then the leftmost
      match is replaced by its expansion\<close>
  "re_sub r repl s =
     (case tokens repl of
        Inl e \<Rightarrow> Inl e
      | Inr ts \<Rightarrow>
          (case parse_template (groups r) ts of
             Inl e \<Rightarrow> Inl e
           | Inr ps \<Rightarrow>
               (case re_search False r s of
                  None \<Rightarrow> Inr s
                | Some (i, j, g) \<Rightarrow> Inr (take i s @ expand_template ps s (i, j, g) @ drop j s))))"

section \<open>The attribute injector\<close>

definition already_qualified :: regex where
  \<comment> \<open>\<^verbatim>\<open>(who is|who are|of .* descent)\<close>\<close>
  "already_qualified =
     Group (Alt (Lit ''who is'') (Alt (Lit ''who are'')
       (Seq (Lit ''of '') (Seq DotStar (Lit '' descent'')))))"

definition pattern_s :: regex where
  \<comment> \<open>\<^verbatim>\<open>\b(A patient|a patient|The patient|the patient)\b\<close>\<close>
  "pattern_s =
     Seq WordBoundary (Seq (Group (Alt (Lit ''A patient'') (Alt (Lit ''a patient'')
       (Alt (Lit ''The patient'') (Lit ''the patient''))))) WordBoundary)"

definition pattern_p :: regex where
  \<comment> \<open>\<^verbatim>\<open>\b(Patients|patients)\b\<close>\<close>
  "pattern_p =
     Seq WordBoundary (Seq (Group (Alt (Lit ''Patients'') (Lit ''patients''))) WordBoundary)"

definition add_sensitive_to_question :: "string \<Rightarrow> string \<Rightarrow> error + string option" where
  "add_sensitive_to_question question sensitive_attribute =
     (let question_lower = strip question in
      if re_search True already_qualified question_lower \<noteq> None then
        (if startswith question_lower ''A patient '' then
           Inr (Some (''A '' @ sensitive_attribute @ '' patient '' @ drop 10 question))
         else if startswith question_lower ''a patient '' then
           Inr (Some (''A '' @ sensitive_attribute @ '' patient '' @ drop 10 question))
         else Inr None)
      else if re_search False pattern_s question \<noteq> None then
        map_sum id Some (re_sub pattern_s (''A '' @ sensitive_attribute @ '' patient'') question)
      else if re_search False pattern_p question \<noteq> None then
        map_sum id Some (re_sub pattern_p (sensitive_attribute @ '' patients'') question)
      else Inr None)"

section \<open>Tables and the two generators\<close>

text \<open>
  A table is the list of its rows, each row the dict that \<open>row.to_dict()\<close> gives: a map
  from column names to cells. A cell read from a CSV file is a text or a whole number
  (cells of floating-point type are outside the model). What a generator does besides
  computing is kept as a list of effects in the order of their occurrence; a path is the
  list of its components. Failures of the file system are not modelled, and an exception
  ends the run with the error alone.
\<close>

datatype cell = Text string | Number int

type_synonym row = "string \<rightharpoonup> cell"

type_synonym path = "string list"

datatype effect =
    Mkdir path
  | Print string
  | Save path "row list"
  | Progress string path

fun decimal :: "nat \<Rightarrow> string" where
  "decimal n = (if n < 10 then [char_of (48 + n)] else decimal (n div 10) @ [char_of (48 + n mod 10)])"

declare decimal.simps [simp del]

definition str_cell :: "cell \<Rightarrow> string" where
  \<comment> \<open>a cell as an f-string renders it\<close>
  "str_cell v =
     (case v of
        Text t \<Rightarrow> t
      | Number i \<Rightarrow> if i < 0 then CHR ''-'' # decimal (nat (- i)) else decimal (nat i))"

definition replace_spaces :: "string \<Rightarrow> string" where
  \<comment> \<open>\<open>attr.replace(' ', '_')\<close>\<close>
  "replace_spaces t = map (\<lambda>c. if c = CHR '' '' then CHR ''_'' else c) t"

definition truthy :: "string option \<Rightarrow> bool" where
  \<comment> \<open>the truth value of an injector result: \<open>None\<close> and the empty text are false\<close>
  "truthy v = (case v of None \<Rightarrow> False | Some t \<Rightarrow> t \<noteq> [])"

definition lookup :: "row \<Rightarrow> string \<Rightarrow> error + cell" where
  "lookup r k = (case r k of None \<Rightarrow> Inl (KeyError k) | Some v \<Rightarrow> Inr v)"

definition warning_lines :: "cell \<Rightarrow> string \<Rightarrow> string \<Rightarrow> string list" where
  "warning_lines vignette_number attr original_question =
     [''Warning: Could not augment vignette '' @ str_cell vignette_number
        @ '' for attribute '' @ [CHR 0x27] @ attr @ [CHR 0x27],
      ''  Original: '' @ take 100 original_question @ ''...'']"

definition augment_row :: "string \<Rightarrow> string \<Rightarrow> row \<Rightarrow> error + (string list \<times> row)" where
  \<comment> \<open>the body of the loop over the rows in \<open>generate_augmented_vignettes\<close>: the lines it
      prints and the row it appends\<close>
  "augment_row attribute_category attr row_dict =
     (case row_dict ''Generated_Vignette_Question'' of
        None \<Rightarrow> Inl (KeyError ''Generated_Vignette_Question'')
      | Some (Number n) \<Rightarrow> Inl AttributeError
      | Some (Text original_question) \<Rightarrow>
          (case add_sensitive_to_question original_question attr of
             Inl e \<Rightarrow> Inl e
           | Inr new_question \<Rightarrow>
               if truthy new_question then
                 Inr ([], row_dict
                   (''Generated_Vignette_Question'' \<mapsto> Text (case new_question of Some t \<Rightarrow> t | None \<Rightarrow> []),
                    ''Sensitive_Attribute_Category'' \<mapsto> Text attribute_category,
                    ''Sensitive_Attribute_Value'' \<mapsto> Text attr))
               else
                 (case row_dict ''Vignette_Number'' of
                    None \<Rightarrow> Inl (KeyError ''Vignette_Number'')
                  | Some v \<Rightarrow>
                      Inr (warning_lines v attr original_question, row_dict
                        (''Sensitive_Attribute_Category'' \<mapsto> Text attribute_category,
                         ''Sensitive_Attribute_Value'' \<mapsto> Text attr,
                         ''Generated_Vignette_Question'' \<mapsto> Text original_question)))))"

fun augment_rows :: "string \<Rightarrow> string \<Rightarrow> row list \<Rightarrow> error + (string list \<times> row list)" where
  "augment_rows attribute_category attr [] = Inr ([], [])"
| "augment_rows attribute_category attr (r # df) =
     (case augment_row attribute_category attr r of
        Inl e \<Rightarrow> Inl e
      | Inr (printed, r') \<Rightarrow>
          (case augment_rows attribute_category attr df of
             Inl e \<Rightarrow> Inl e
           | Inr (printed', augmented_rows) \<Rightarrow> Inr (printed @ printed', r' # augmented_rows)))"

definition vignettes_file :: "string \<Rightarrow> string \<Rightarrow> string" where
  "vignettes_file attribute_category attr =
     ''vignettes_'' @ attribute_category @ ''_'' @ replace_spaces attr @ ''.csv''"

fun augment_attributes :: "row list \<Rightarrow> string \<Rightarrow> string \<Rightarrow> string list \<Rightarrow> error + effect list" where
  "augment_attributes df output_dir attribute_category [] = Inr []"
| "augment_attributes df output_dir attribute_category (attr # attributes) =
     (case augment_rows attribute_category attr df of
        Inl e \<Rightarrow> Inl e
      | Inr (printed, augmented_rows) \<Rightarrow>
          (case augment_attributes df output_dir attribute_category attributes of
             Inl e \<Rightarrow> Inl e
           | Inr effects \<Rightarrow>
               (let output_file = [output_dir, vignettes_file attribute_category attr]
                in Inr (map Print printed
                     @ [Save output_file augmented_rows,
                        Progress (''Generated '' @ decimal (length augmented_rows)
                          @ '' vignettes for '' @ attr @ '' -> '') output_file]
                     @ effects))))"

definition generate_augmented_vignettes ::
    "row list \<Rightarrow> string \<Rightarrow> string \<Rightarrow> string list \<Rightarrow> error + effect list" where
  \<comment> \<open>\<open>df\<close> is the table read from \<open>input_csv_path\<close>\<close>
  "generate_augmented_vignettes df output_dir attribute_category attributes =
     map_sum id ((#) (Mkdir [output_dir]))
       (augment_attributes df output_dir attribute_category attributes)"

definition compare_row :: "string \<Rightarrow> string \<Rightarrow> string \<Rightarrow> row \<Rightarrow> error + row list" where
  \<comment> \<open>the body of the loop over the rows in \<open>generate_paired_comparisons\<close>: the rows it
      appends, one or none\<close>
  "compare_row attribute_category attr1 attr2 r =
     (case r ''Generated_Vignette_Question'' of
        None \<Rightarrow> Inl (KeyError ''Generated_Vignette_Question'')
      | Some (Number n) \<Rightarrow> Inl AttributeError
      | Some (Text original_question) \<Rightarrow>
          (case add_sensitive_to_question original_question attr1 of
             Inl e \<Rightarrow> Inl e
           | Inr question_v1 \<Rightarrow>
               (case add_sensitive_to_question original_question attr2 of
                  Inl e \<Rightarrow> Inl e
                | Inr question_v2 \<Rightarrow>
                    if truthy question_v1 \<and> truthy question_v2 then
                      (case lookup r ''Vignette_Number'' of Inl e \<Rightarrow> Inl e | Inr vignette_number \<Rightarrow>
                      (case lookup r ''Dataset_Source'' of Inl e \<Rightarrow> Inl e | Inr dataset_source \<Rightarrow>
                      (case lookup r ''Original_Questions'' of Inl e \<Rightarrow> Inl e | Inr original_questions \<Rightarrow>
                      (case lookup r ''Answer'' of Inl e \<Rightarrow> Inl e | Inr answer \<Rightarrow>
                         Inr [[''Vignette_Number'' \<mapsto> vignette_number,
                               ''Dataset_Source'' \<mapsto> dataset_source,
                               ''Original_Questions'' \<mapsto> original_questions,
                               ''Question_Version_1'' \<mapsto> Text (case question_v1 of Some t \<Rightarrow> t | None \<Rightarrow> []),
                               ''Attribute_1'' \<mapsto> Text attr1,
                               ''Question_Version_2'' \<mapsto> Text (case question_v2 of Some t \<Rightarrow> t | None \<Rightarrow> []),
                               ''Attribute_2'' \<mapsto> Text attr2,
                               ''Expected_Answer'' \<mapsto> answer,
                               ''Comparison_Type'' \<mapsto> Text attribute_category]]))))
                    else Inr [])))"

fun compare_rows :: "string \<Rightarrow> string \<Rightarrow> string \<Rightarrow> row list \<Rightarrow> error + row list" where
  "compare_rows attribute_category attr1 attr2 [] = Inr []"
| "compare_rows attribute_category attr1 attr2 (r # df) =
     (case compare_row attribute_category attr1 attr2 r of
        Inl e \<Rightarrow> Inl e
      | Inr appended \<Rightarrow>
          (case compare_rows attribute_category attr1 attr2 df of
             Inl e \<Rightarrow> Inl e
           | Inr comparison_rows \<Rightarrow> Inr (appended @ comparison_rows)))"

definition comparison_file :: "string \<Rightarrow> string \<Rightarrow> string \<Rightarrow> string" where
  "comparison_file attribute_category attr1 attr2 =
     ''comparison_'' @ attribute_category @ ''_'' @ replace_spaces attr1 @ ''_vs_''
       @ replace_spaces attr2 @ ''.csv''"

fun compare_pairs :: "row list \<Rightarrow> path \<Rightarrow> string \<Rightarrow> (string \<times> string) list \<Rightarrow> error + effect list" where
  "compare_pairs df output_path attribute_category [] = Inr []"
| "compare_pairs df output_path attribute_category ((attr1, attr2) # attribute_pairs) =
     (case compare_rows attribute_category attr1 attr2 df of
        Inl e \<Rightarrow> Inl e
      | Inr comparison_rows \<Rightarrow>
          (case compare_pairs df output_path attribute_category attribute_pairs of
             Inl e \<Rightarrow> Inl e
           | Inr effects \<Rightarrow>
               (let output_file = output_path @ [comparison_file attribute_category attr1 attr2]
                in Inr ([Save output_file comparison_rows,
                         Progress (''Generated '' @ decimal (length comparison_rows)
                           @ '' paired comparisons: '' @ attr1 @ '' vs '' @ attr2 @ '' -> '')
                           output_file]
                        @ effects))))"

definition generate_paired_comparisons ::
    "row list \<Rightarrow> string \<Rightarrow> string \<Rightarrow> (string \<times> string) list \<Rightarrow> error + effect list" where
  \<comment> \<open>\<open>df\<close> is the table read from \<open>input_csv_path\<close>\<close>
  "generate_paired_comparisons df output_dir attribute_category attribute_pairs =
     map_sum id ((#) (Mkdir [output_dir, ''paired_comparisons'']))
       (compare_pairs df [output_dir, ''paired_comparisons''] attribute_category attribute_pairs)"

section \<open>Vocabulary of the specification\<close>

text \<open>
  The properties below speak of occurrences of phrases in a question. A form occurs as a
  whole word at an index when the text there is the form, and the characters just before
  and just after it, if any, are not word characters. A question carries a qualifying
  phrase when it contains \<open>who is\<close> or \<open>who are\<close>, or \<open>of\<close> and a later \<open>descent\<close>
  each with its space, the text between them being any run of characters without a line
  break (what \<open>.*\<close> matches); letters are compared without regard to case.
\<close>

definition singular_forms :: "string list" where
  "singular_forms = [''A patient'', ''a patient'', ''The patient'', ''the patient'']"

definition plural_forms :: "string list" where
  "plural_forms = [''Patients'', ''patients'']"

definition whole_word_at :: "string list \<Rightarrow> string \<Rightarrow> nat \<Rightarrow> string \<Rightarrow> bool" where
  "whole_word_at forms s i w =
     (w \<in> set forms \<and> take (length w) (drop i s) = w
      \<and> (i = 0 \<or> \<not> is_word (s ! (i - 1)))
      \<and> (i + length w = length s \<or> \<not> is_word (s ! (i + length w))))"

definition contains_ci :: "string \<Rightarrow> string \<Rightarrow> bool" where
  "contains_ci s p = (\<exists>i. literal_at True p s i)"

definition contains_of_descent :: "string \<Rightarrow> bool" where
  "contains_of_descent s =
     (\<exists>i j. literal_at True ''of '' s i \<and> i + 3 \<le> j
        \<and> newline \<notin> set (take (j - (i + 3)) (drop (i + 3) s))
        \<and> literal_at True '' descent'' s j)"

definition qualified_phrase :: "string \<Rightarrow> bool" where
  "qualified_phrase s =
     (contains_ci s ''who is'' \<or> contains_ci s ''who are'' \<or> contains_of_descent s)"

definition wordy :: "string list \<Rightarrow> bool" where
  "wordy forms = (\<forall>w\<in>set forms. w \<noteq> [] \<and> is_word (hd w) \<and> is_word (last w))"

definition word_alts :: "string list \<Rightarrow> string \<Rightarrow> nat \<Rightarrow> mstate list" where
  "word_alts forms s i =
     (if at_boundary s i
      then concat (map (\<lambda>w. if literal_at False w s i \<and> at_boundary s (i + length w)
                               then [(i + length w, Some (i, i + length w))] else []) forms)
      else [])"

section \<open>Searching with the patterns\<close>

lemma first_match_list_None:
  "first_match ic r s js = None \<longleftrightarrow> (\<forall>i\<in>set js. run ic r s (i, None) = [])"
  by (induction js) (auto split: list.splits)

lemma first_match_upt_Some:
  "first_match ic r s [a..<b] = Some (i, j, g) \<longleftrightarrow>
     a \<le> i \<and> i < b \<and> (\<forall>k. a \<le> k \<and> k < i \<longrightarrow> run ic r s (k, None) = [])
     \<and> (\<exists>rest. run ic r s (i, None) = (j, g) # rest)"
proof (induction "b - a" arbitrary: a)
  case 0
  then show ?case by simp
next
  case (Suc n)
  then have ab: "a < b" and n: "n = b - Suc a" by auto
  have upt: "[a..<b] = a # [Suc a..<b]" using ab by (simp add: upt_conv_Cons)
  show ?case
  proof (cases "run ic r s (a, None)")
    case Nil
    have "first_match ic r s [a..<b] = first_match ic r s [Suc a..<b]"
      using Nil upt by simp
    moreover have "(a \<le> i \<and> i < b \<and> (\<forall>k. a \<le> k \<and> k < i \<longrightarrow> run ic r s (k, None) = [])
        \<and> (\<exists>rest. run ic r s (i, None) = (j, g) # rest)) \<longleftrightarrow>
       (Suc a \<le> i \<and> i < b \<and> (\<forall>k. Suc a \<le> k \<and> k < i \<longrightarrow> run ic r s (k, None) = [])
        \<and> (\<exists>rest. run ic r s (i, None) = (j, g) # rest))"
      using Nil by (metis Suc_leI le_eq_less_or_eq list.distinct(1) Suc_le_lessD less_imp_le_nat)
    ultimately show ?thesis using Suc.hyps(1)[OF n] by simp
  next
    case (Cons x xs)
    obtain j' g' where x: "x = (j', g')" by (cases x)
    have fm: "first_match ic r s [a..<b] = Some (a, j', g')"
      using Cons x upt by simp
    show ?thesis
    proof
      assume "first_match ic r s [a..<b] = Some (i, j, g)"
      then have "i = a" "j = j'" "g = g'" using fm by auto
      then show "a \<le> i \<and> i < b \<and> (\<forall>k. a \<le> k \<and> k < i \<longrightarrow> run ic r s (k, None) = [])
        \<and> (\<exists>rest. run ic r s (i, None) = (j, g) # rest)"
        using ab Cons x by auto
    next
      assume h: "a \<le> i \<and> i < b \<and> (\<forall>k. a \<le> k \<and> k < i \<longrightarrow> run ic r s (k, None) = [])
        \<and> (\<exists>rest. run ic r s (i, None) = (j, g) # rest)"
      have "i = a"
      proof (rule ccontr)
        assume "i \<noteq> a"
        then have "a < i" using h by auto
        then have "run ic r s (a, None) = []" using h by auto
        then show False using Cons by simp
      qed
      then show "first_match ic r s [a..<b] = Some (i, j, g)"
        using fm h Cons x by auto
    qed
  qed
qed

lemma re_search_None:
  "re_search ic r s = None \<longleftrightarrow> (\<forall>i\<le>length s. run ic r s (i, None) = [])"
  by (auto simp: re_search_def first_match_list_None less_Suc_eq_le)

lemma re_search_Some:
  "re_search ic r s = Some (i, j, g) \<longleftrightarrow>
     i \<le> length s \<and> (\<forall>k<i. run ic r s (k, None) = [])
     \<and> (\<exists>rest. run ic r s (i, None) = (j, g) # rest)"
  using first_match_upt_Some[of ic r s 0 "Suc (length s)" i j g]
  by (simp add: re_search_def less_Suc_eq_le del: upt_Suc)

lemma run_pattern_s: "run False pattern_s s (i, None) = word_alts singular_forms s i"
  by (simp add: pattern_s_def word_alts_def singular_forms_def)

lemma run_pattern_p: "run False pattern_p s (i, None) = word_alts plural_forms s i"
  by (simp add: pattern_p_def word_alts_def plural_forms_def)

lemma literal_at_length:
  assumes "literal_at False w s i" and "w \<noteq> []"
  shows "i + length w \<le> length s"
proof -
  have "length (take (length w) (drop i s)) = length w"
    using assms by (simp add: literal_at_def)
  then have "min (length s - i) (length w) = length w" by simp
  moreover have "0 < length w" using assms(2) by simp
  ultimately show ?thesis by linarith
qed

lemma literal_at_nth:
  assumes "literal_at False w s i" and "k < length w"
  shows "s ! (i + k) = w ! k"
proof -
  have ne: "w \<noteq> []" using assms(2) by auto
  have "w ! k = take (length w) (drop i s) ! k"
    using assms by (simp add: literal_at_def)
  also have "\<dots> = s ! (i + k)"
    using assms literal_at_length[OF assms(1) ne] by simp
  finally show ?thesis by simp
qed

lemma boundary_start:
  assumes "literal_at False w s i" and "w \<noteq> []" and "is_word (hd w)"
  shows "at_boundary s i \<longleftrightarrow> (i = 0 \<or> \<not> is_word (s ! (i - 1)))"
proof -
  have len: "i < length s" using literal_at_length[OF assms(1,2)] assms(2) by (cases w) auto
  have "s ! i = hd w" using literal_at_nth[OF assms(1), of 0] assms(2) by (simp add: hd_conv_nth)
  then show ?thesis using len assms(3) by (auto simp: at_boundary_def)
qed

lemma boundary_end:
  assumes "literal_at False w s i" and "w \<noteq> []" and "is_word (last w)"
  shows "at_boundary s (i + length w) \<longleftrightarrow>
           (i + length w = length s \<or> \<not> is_word (s ! (i + length w)))"
proof -
  have len: "i + length w \<le> length s" by (rule literal_at_length[OF assms(1,2)])
  have pos: "0 < length w" using assms(2) by simp
  have eq: "i + length w - 1 = i + (length w - 1)" using pos by linarith
  have "length w - 1 < length w" using pos by simp
  then have "s ! (i + (length w - 1)) = w ! (length w - 1)"
    by (rule literal_at_nth[OF assms(1)])
  moreover have "last w = w ! (length w - 1)"
    using assms(2) by (rule last_conv_nth)
  ultimately have "s ! (i + length w - 1) = last w"
    using eq by simp
  then show ?thesis using len pos assms(3) by (auto simp: at_boundary_def)
qed

lemma word_alts_member:
  assumes "wordy forms" and "(j, g) \<in> set (word_alts forms s i)"
  shows "\<exists>w. whole_word_at forms s i w \<and> j = i + length w \<and> g = Some (i, i + length w)"
proof -
  from assms(2) obtain w where w: "w \<in> set forms" "at_boundary s i" "literal_at False w s i"
      "at_boundary s (i + length w)" "j = i + length w" "g = Some (i, i + length w)"
    by (auto simp: word_alts_def split: if_splits)
  have wd: "w \<noteq> []" "is_word (hd w)" "is_word (last w)"
    using assms(1) w(1) by (auto simp: wordy_def)
  have "whole_word_at forms s i w"
    using w boundary_start[OF w(3) wd(1,2)] boundary_end[OF w(3) wd(1,3)]
    by (simp add: whole_word_at_def literal_at_def)
  then show ?thesis using w by blast
qed

lemma word_alts_nonempty:
  assumes "wordy forms" and "whole_word_at forms s i w"
  shows "word_alts forms s i \<noteq> []"
proof -
  have wd: "w \<noteq> []" "is_word (hd w)" "is_word (last w)" and mem: "w \<in> set forms"
    using assms by (auto simp: wordy_def whole_word_at_def)
  have lit: "literal_at False w s i" using assms(2) by (simp add: whole_word_at_def literal_at_def)
  have "at_boundary s i" "at_boundary s (i + length w)"
    using assms(2) boundary_start[OF lit wd(1,2)] boundary_end[OF lit wd(1,3)]
    by (auto simp: whole_word_at_def)
  then have "(i + length w, Some (i, i + length w)) \<in> set (word_alts forms s i)"
    using lit mem by (auto simp: word_alts_def)
  then show ?thesis by auto
qed

lemma wordy_singular: "wordy singular_forms"
  by (simp add: wordy_def singular_forms_def is_word_def is_ascii_letter_def is_digit_def between_def ord_def)

lemma wordy_plural: "wordy plural_forms"
  by (simp add: wordy_def plural_forms_def is_word_def is_ascii_letter_def is_digit_def between_def ord_def)

lemma tokens_plain: "backslash \<notin> set t \<Longrightarrow> tokens t = Inr (map Chr t)"
  by (induction t rule: tokens.induct) auto

lemma parse_template_plain: "parse_template n (map Chr t) = Inr (map (\<lambda>c. Literal [c]) t)"
  by (induction t) auto

lemma expand_template_plain: "expand_template (map (\<lambda>c. Literal [c]) t) s m = t"
  by (induction t) (auto simp: expand_template_def)

lemma re_sub_plain:
  assumes "backslash \<notin> set t"
  shows "re_sub r t s =
     (case re_search False r s of
        None \<Rightarrow> Inr s
      | Some (i, j, g) \<Rightarrow> Inr (take i s @ t @ drop j s))"
  using assms
  by (simp add: re_sub_def tokens_plain parse_template_plain expand_template_plain
      split: option.splits)

lemma re_search_word_alts:
  assumes "wordy forms" and run: "\<And>i. run False r s (i, None) = word_alts forms s i"
  shows "re_search False r s = None \<longleftrightarrow> (\<forall>i w. \<not> whole_word_at forms s i w)"
proof
  assume n: "re_search False r s = None"
  show "\<forall>i w. \<not> whole_word_at forms s i w"
  proof (intro allI notI)
    fix i w assume w: "whole_word_at forms s i w"
    have ne: "w \<noteq> []" using assms(1) w by (auto simp: wordy_def whole_word_at_def)
    have "literal_at False w s i" using w by (simp add: whole_word_at_def literal_at_def)
    then have "i \<le> length s" using literal_at_length[OF _ ne] by fastforce
    then have "word_alts forms s i = []" using n run by (simp add: re_search_None)
    then show False using word_alts_nonempty[OF assms(1) w] by simp
  qed
next
  assume a: "\<forall>i w. \<not> whole_word_at forms s i w"
  have "word_alts forms s i = []" for i
  proof (cases "word_alts forms s i")
    case Nil then show ?thesis .
  next
    case (Cons x xs)
    obtain j g where "x = (j, g)" by (cases x)
    then have "(j, g) \<in> set (word_alts forms s i)" using Cons by simp
    then show ?thesis using word_alts_member[OF assms(1)] a by blast
  qed
  then show "re_search False r s = None" using run by (simp add: re_search_None)
qed

lemma re_search_word_alts_first:
  assumes "wordy forms" and run: "\<And>i. run False r s (i, None) = word_alts forms s i"
    and "whole_word_at forms s i0 w0"
  shows "\<exists>i w g. re_search False r s = Some (i, i + length w, g) \<and> whole_word_at forms s i w
           \<and> (\<forall>j<i. \<forall>v. \<not> whole_word_at forms s j v)"
proof -
  have "re_search False r s \<noteq> None"
    using re_search_word_alts[OF assms(1) run] assms(3) by blast
  then obtain i j g where m: "re_search False r s = Some (i, j, g)" by auto
  then have i: "i \<le> length s" and before: "\<forall>k<i. run False r s (k, None) = []"
    and here: "\<exists>rest. run False r s (i, None) = (j, g) # rest"
    by (auto simp: re_search_Some)
  from here have "(j, g) \<in> set (word_alts forms s i)" using run by auto
  then obtain w where w: "whole_word_at forms s i w" "j = i + length w"
    using word_alts_member[OF assms(1)] by blast
  have "\<not> whole_word_at forms s k v" if "k < i" for k v
    using word_alts_nonempty[OF assms(1), of s k v] before run that by auto
  then show ?thesis using m w by blast
qed

lemma literal_ci_length:
  assumes "literal_at ic w s i" and "w \<noteq> []"
  shows "i + length w \<le> length s"
proof -
  have "length (take (length w) (drop i s)) = length w"
  proof (cases ic)
    case True
    then have "map ascii_lower (take (length w) (drop i s)) = map ascii_lower w"
      using assms(1) by (simp add: literal_at_def)
    then show ?thesis by (rule map_eq_imp_length_eq)
  next
    case False
    then show ?thesis using assms(1) by (simp add: literal_at_def)
  qed
  then have "min (length s - i) (length w) = length w" by simp
  moreover have "0 < length w" using assms(2) by simp
  ultimately show ?thesis by linarith
qed

lemma notin_take_takeWhile:
  "n \<le> length xs \<Longrightarrow> (x \<notin> set (take n xs)) \<longleftrightarrow> n \<le> length (takeWhile (\<lambda>c. c \<noteq> x) xs)"
proof (induction xs arbitrary: n)
  case Nil
  then show ?case by simp
next
  case (Cons a xs)
  then show ?case by (cases n) auto
qed

lemma concat_map_nonempty: "concat (map f xs) \<noteq> [] \<longleftrightarrow> (\<exists>x\<in>set xs. f x \<noteq> [])"
  by (induction xs) auto

lemma run_dotstar_lit:
  "run ic (Seq DotStar (Lit d)) s (a, g) \<noteq> [] \<longleftrightarrow>
     (\<exists>k\<le>length (takeWhile (\<lambda>c. c \<noteq> newline) (drop a s)). literal_at ic d s (a + k))"
proof -
  let ?n = "length (takeWhile (\<lambda>c. c \<noteq> newline) (drop a s))"
  have "run ic (Seq DotStar (Lit d)) s (a, g) =
      concat (map (\<lambda>k. if literal_at ic d s (a + k) then [(a + k + length d, g)] else [])
                  (rev [0..<Suc ?n]))"
    by (simp add: comp_def del: upt_Suc)
  then have "run ic (Seq DotStar (Lit d)) s (a, g) \<noteq> [] \<longleftrightarrow>
      (\<exists>k\<in>set (rev [0..<Suc ?n]). literal_at ic d s (a + k))"
    by (simp only: concat_map_nonempty) (simp del: upt_Suc)
  then show ?thesis by (simp add: less_Suc_eq_le Bex_def del: upt_Suc)
qed

lemma run_already_qualified:
  "run True already_qualified s (i, g) \<noteq> [] \<longleftrightarrow>
     literal_at True ''who is'' s i \<or> literal_at True ''who are'' s i
     \<or> (literal_at True ''of '' s i
         \<and> (\<exists>k\<le>length (takeWhile (\<lambda>c. c \<noteq> newline) (drop (i + 3) s)).
               literal_at True '' descent'' s (i + 3 + k)))"
proof -
  have "run True already_qualified s (i, g) \<noteq> [] \<longleftrightarrow>
      literal_at True ''who is'' s i \<or> literal_at True ''who are'' s i
      \<or> (literal_at True ''of '' s i
          \<and> run True (Seq DotStar (Lit '' descent'')) s (i + 3, g) \<noteq> [])"
  proof -
    have seq: "run True (Seq (Lit ''of '') (Seq DotStar (Lit '' descent''))) s (i, g) =
        (if literal_at True ''of '' s i
         then run True (Seq DotStar (Lit '' descent'')) s (i + 3, g) else [])"
      by (simp add: eval_nat_numeral del: run.simps(4))
    have "run True already_qualified s (i, g) =
        map (\<lambda>(j, _). (j, Some (i, j)))
          (run True (Lit ''who is'') s (i, g) @ run True (Lit ''who are'') s (i, g)
           @ run True (Seq (Lit ''of '') (Seq DotStar (Lit '' descent''))) s (i, g))"
      by (simp only: already_qualified_def run.simps(2,6))
    then show ?thesis by (simp only: seq) (simp del: run.simps(3,4))
  qed
  then show ?thesis by (simp only: run_dotstar_lit)
qed

lemma search_already_qualified:
  "re_search True already_qualified s \<noteq> None \<longleftrightarrow> qualified_phrase s"
proof
  assume "re_search True already_qualified s \<noteq> None"
  then obtain i where "run True already_qualified s (i, None) \<noteq> []"
    by (auto simp: re_search_None)
  then consider "literal_at True ''who is'' s i" | "literal_at True ''who are'' s i"
    | k where "literal_at True ''of '' s i"
        "k \<le> length (takeWhile (\<lambda>c. c \<noteq> newline) (drop (i + 3) s))"
        "literal_at True '' descent'' s (i + 3 + k)"
    by (auto simp only: run_already_qualified)
  then show "qualified_phrase s"
  proof cases
    case 1 then show ?thesis by (auto simp: qualified_phrase_def contains_ci_def)
  next
    case 2 then show ?thesis by (auto simp: qualified_phrase_def contains_ci_def)
  next
    case 3
    have "i + 3 + k + length '' descent'' \<le> length s"
      by (rule literal_ci_length[OF 3(3)]) simp
    then have "k \<le> length (drop (i + 3) s)" by simp
    then have "newline \<notin> set (take k (drop (i + 3) s))"
      using 3(2) by (simp add: notin_take_takeWhile)
    then have "contains_of_descent s"
      unfolding contains_of_descent_def using 3(1,3)
      by (intro exI[of _ i] exI[of _ "i + 3 + k"]) simp
    then show ?thesis by (simp add: qualified_phrase_def)
  qed
next
  assume q: "qualified_phrase s"
  have "\<exists>i\<le>length s. run True already_qualified s (i, None) \<noteq> []"
  proof -
    consider i where "literal_at True ''who is'' s i" | i where "literal_at True ''who are'' s i"
      | i j where "literal_at True ''of '' s i" "i + 3 \<le> j"
          "newline \<notin> set (take (j - (i + 3)) (drop (i + 3) s))" "literal_at True '' descent'' s j"
      using q by (auto simp: qualified_phrase_def contains_ci_def contains_of_descent_def)
    then show ?thesis
    proof cases
      case 1
      have "i + length ''who is'' \<le> length s" by (rule literal_ci_length[OF 1]) simp
      then show ?thesis using 1 by (intro exI[of _ i]) (simp only: run_already_qualified, simp)
    next
      case 2
      have "i + length ''who are'' \<le> length s" by (rule literal_ci_length[OF 2]) simp
      then show ?thesis using 2 by (intro exI[of _ i]) (simp only: run_already_qualified, simp)
    next
      case 3
      have l: "i + length ''of '' \<le> length s" by (rule literal_ci_length[OF 3(1)]) simp
      have "j + length '' descent'' \<le> length s" by (rule literal_ci_length[OF 3(4)]) simp
      then have "j - (i + 3) \<le> length (drop (i + 3) s)" by simp
      then have "j - (i + 3) \<le> length (takeWhile (\<lambda>c. c \<noteq> newline) (drop (i + 3) s))"
        using 3(3) by (simp add: notin_take_takeWhile)
      moreover have "literal_at True '' descent'' s (i + 3 + (j - (i + 3)))"
        using 3(2,4) by simp
      ultimately have "run True already_qualified s (i, None) \<noteq> []"
        using 3(1) by (simp only: run_already_qualified) blast
      then show ?thesis using l by (intro exI[of _ i]) simp
    qed
  qed
  then show "re_search True already_qualified s \<noteq> None"
    by (auto simp: re_search_None)
qed

section \<open>White space at the ends of a question\<close>

lemma literal_at_Cons: "literal_at ic p (c # s) (Suc i) = literal_at ic p s i"
  by (simp add: literal_at_def)

lemma literal_ci_first:
  assumes "literal_at True p (c # s) 0" and "p \<noteq> []"
  shows "ascii_lower c = ascii_lower (hd p)"
proof -
  obtain x xs where p: "p = x # xs" using assms(2) by (cases p) auto
  show ?thesis using assms(1) by (simp add: literal_at_def p)
qed

lemma take_drop_append:
  "i + n \<le> length s \<Longrightarrow> take n (drop i (s @ t)) = take n (drop i s)"
  by simp

lemma literal_at_append_inside:
  "i + length p \<le> length s \<Longrightarrow> literal_at ic p (s @ t) i = literal_at ic p s i"
  by (simp add: literal_at_def)

lemma literal_ci_last:
  assumes "literal_at True p (s @ [c]) i" and "p \<noteq> []" and "\<not> i + length p \<le> length s"
  shows "ascii_lower c = ascii_lower (last p)"
proof -
  have le: "i + length p \<le> Suc (length s)"
    using literal_ci_length[OF assms(1,2)] by simp
  then have eq: "i + length p = Suc (length s)" using assms(3) by simp
  have m: "map ascii_lower (take (length p) (drop i (s @ [c]))) = map ascii_lower p"
    using assms(1) by (simp add: literal_at_def)
  have i: "i \<le> length s" using eq assms(2) by (cases p) auto
  have "take (length p) (drop i (s @ [c])) = drop i s @ [c]"
    using eq i by simp
  then have "map ascii_lower (drop i s) @ [ascii_lower c] = map ascii_lower p"
    using m by simp
  then have "last (map ascii_lower p) = ascii_lower c"
    by (metis last_snoc)
  then show ?thesis using assms(2) by (simp add: last_map)
qed

lemma space_lower: "isspace c \<Longrightarrow> ascii_lower c = c"
  by (auto simp: isspace_def ascii_lower_def between_def)

lemma space_not_letter:
  assumes "isspace c"
  shows "c \<noteq> CHR ''w''" "c \<noteq> CHR ''o''" "c \<noteq> CHR ''s''" "c \<noteq> CHR ''e''" "c \<noteq> CHR ''t''"
  using assms by (auto simp: isspace_def between_def ord_def)

lemma lower_consts:
  "ascii_lower CHR ''w'' = CHR ''w''" "ascii_lower CHR ''o'' = CHR ''o''"
  "ascii_lower CHR ''s'' = CHR ''s''" "ascii_lower CHR ''e'' = CHR ''e''"
  "ascii_lower CHR ''t'' = CHR ''t''"
  by (simp_all add: ascii_lower_def between_def ord_def)

lemma contains_ci_Cons:
  assumes "isspace c" and "p \<noteq> []" and "ascii_lower (hd p) \<noteq> c"
  shows "contains_ci (c # s) p = contains_ci s p"
proof
  assume "contains_ci (c # s) p"
  then obtain i where i: "literal_at True p (c # s) i" by (auto simp: contains_ci_def)
  have "i \<noteq> 0" using literal_ci_first[OF _ assms(2)] i assms(1,3) space_lower by metis
  then obtain k where "i = Suc k" by (cases i) auto
  then show "contains_ci s p" using i by (auto simp: contains_ci_def literal_at_Cons)
next
  assume "contains_ci s p"
  then obtain i where "literal_at True p s i" by (auto simp: contains_ci_def)
  then have "literal_at True p (c # s) (Suc i)" by (simp add: literal_at_Cons)
  then show "contains_ci (c # s) p" by (auto simp: contains_ci_def)
qed

lemma contains_of_descent_Cons:
  assumes "isspace c"
  shows "contains_of_descent (c # s) = contains_of_descent s"
proof
  assume "contains_of_descent (c # s)"
  then obtain i j where h: "literal_at True ''of '' (c # s) i" "i + 3 \<le> j"
      "newline \<notin> set (take (j - (i + 3)) (drop (i + 3) (c # s)))"
      "literal_at True '' descent'' (c # s) j"
    by (auto simp: contains_of_descent_def)
  have "i \<noteq> 0"
  proof
    assume "i = 0"
    then have "ascii_lower c = ascii_lower (hd ''of '')"
      using literal_ci_first[of "''of ''" c s] h(1) by simp
    then show False using space_lower[OF assms] space_not_letter(2)[OF assms]
      by (simp add: lower_consts)
  qed
  then obtain k where k: "i = Suc k" by (cases i) auto
  then obtain l where l: "j = Suc l" using h(2) by (cases j) auto
  have e1: "drop (Suc k + 3) (c # s) = drop (k + 3) s" by (simp only: add_Suc drop_Suc_Cons)
  have e2: "Suc l - (Suc k + 3) = l - (k + 3)" by simp
  have "literal_at True ''of '' s k" "k + 3 \<le> l" "literal_at True '' descent'' s l"
    using h(1,2,4) k l by (simp_all add: literal_at_Cons)
  moreover have "newline \<notin> set (take (l - (k + 3)) (drop (k + 3) s))"
    using h(3) unfolding k l e1 e2 .
  ultimately show "contains_of_descent s" unfolding contains_of_descent_def by blast
next
  assume "contains_of_descent s"
  then obtain i j where h: "literal_at True ''of '' s i" "i + 3 \<le> j"
      "newline \<notin> set (take (j - (i + 3)) (drop (i + 3) s))"
      "literal_at True '' descent'' s j"
    by (auto simp: contains_of_descent_def)
  have e1: "drop (Suc i + 3) (c # s) = drop (i + 3) s" by (simp only: add_Suc drop_Suc_Cons)
  have e2: "Suc j - (Suc i + 3) = j - (i + 3)" by simp
  have "literal_at True ''of '' (c # s) (Suc i)" "Suc i + 3 \<le> Suc j"
    "literal_at True '' descent'' (c # s) (Suc j)"
    using h(1,2,4) by (simp_all add: literal_at_Cons)
  moreover have "newline \<notin> set (take (Suc j - (Suc i + 3)) (drop (Suc i + 3) (c # s)))"
    using h(3) unfolding e1 e2 .
  ultimately show "contains_of_descent (c # s)" unfolding contains_of_descent_def by blast
qed

lemma qualified_phrase_Cons:
  assumes "isspace c"
  shows "qualified_phrase (c # s) = qualified_phrase s"
proof -
  have "contains_ci (c # s) ''who is'' = contains_ci s ''who is''"
    using assms space_not_letter(1)[OF assms] by (intro contains_ci_Cons) (auto simp: lower_consts)
  moreover have "contains_ci (c # s) ''who are'' = contains_ci s ''who are''"
    using assms space_not_letter(1)[OF assms] by (intro contains_ci_Cons) (auto simp: lower_consts)
  ultimately show ?thesis
    by (simp add: qualified_phrase_def contains_of_descent_Cons[OF assms])
qed

lemma contains_ci_snoc:
  assumes "isspace c" and "p \<noteq> []" and "ascii_lower (last p) \<noteq> c"
  shows "contains_ci (s @ [c]) p = contains_ci s p"
proof
  assume "contains_ci (s @ [c]) p"
  then obtain i where i: "literal_at True p (s @ [c]) i" by (auto simp: contains_ci_def)
  have "i + length p \<le> length s"
    using literal_ci_last[OF i assms(2)] assms(1,3) space_lower by metis
  then have "literal_at True p s i" using i by (simp add: literal_at_append_inside)
  then show "contains_ci s p" by (auto simp: contains_ci_def)
next
  assume "contains_ci s p"
  then obtain i where i: "literal_at True p s i" by (auto simp: contains_ci_def)
  have "i + length p \<le> length s" by (rule literal_ci_length[OF i assms(2)])
  then have "literal_at True p (s @ [c]) i" using i by (simp add: literal_at_append_inside)
  then show "contains_ci (s @ [c]) p" by (auto simp: contains_ci_def)
qed

lemma contains_of_descent_snoc:
  assumes "isspace c"
  shows "contains_of_descent (s @ [c]) = contains_of_descent s"
proof
  assume "contains_of_descent (s @ [c])"
  then obtain i j where h: "literal_at True ''of '' (s @ [c]) i" "i + 3 \<le> j"
      "newline \<notin> set (take (j - (i + 3)) (drop (i + 3) (s @ [c])))"
      "literal_at True '' descent'' (s @ [c]) j"
    by (auto simp: contains_of_descent_def)
  have j: "j + length '' descent'' \<le> length s"
  proof (rule ccontr)
    assume "\<not> j + length '' descent'' \<le> length s"
    then have "ascii_lower c = ascii_lower (last '' descent'')"
      using literal_ci_last[OF h(4)] by simp
    then show False using space_lower[OF assms] space_not_letter(5)[OF assms]
      by (simp add: lower_consts)
  qed
  then have d: "literal_at True '' descent'' s j"
    using h(4) by (simp only: literal_at_append_inside)
  have "i + length ''of '' \<le> length s" using j h(2) by simp
  then have "literal_at True ''of '' s i" using h(1) by (simp only: literal_at_append_inside)
  moreover have "newline \<notin> set (take (j - (i + 3)) (drop (i + 3) s))"
    using h(3) j h(2) by simp
  ultimately show "contains_of_descent s" unfolding contains_of_descent_def using d h(2) by blast
next
  assume "contains_of_descent s"
  then obtain i j where h: "literal_at True ''of '' s i" "i + 3 \<le> j"
      "newline \<notin> set (take (j - (i + 3)) (drop (i + 3) s))"
      "literal_at True '' descent'' s j"
    by (auto simp: contains_of_descent_def)
  have j: "j + length '' descent'' \<le> length s" by (rule literal_ci_length[OF h(4)]) simp
  have i: "i + length ''of '' \<le> length s" by (rule literal_ci_length[OF h(1)]) simp
  have "literal_at True ''of '' (s @ [c]) i" "literal_at True '' descent'' (s @ [c]) j"
    using h(1,4) i j by (simp_all only: literal_at_append_inside)
  moreover have "newline \<notin> set (take (j - (i + 3)) (drop (i + 3) (s @ [c])))"
    using h(3) j h(2) by simp
  ultimately show "contains_of_descent (s @ [c])"
    unfolding contains_of_descent_def using h(2) by blast
qed

lemma qualified_phrase_snoc:
  assumes "isspace c"
  shows "qualified_phrase (s @ [c]) = qualified_phrase s"
proof -
  have "contains_ci (s @ [c]) ''who is'' = contains_ci s ''who is''"
    using assms space_not_letter(3)[OF assms] by (intro contains_ci_snoc) (auto simp: lower_consts)
  moreover have "contains_ci (s @ [c]) ''who are'' = contains_ci s ''who are''"
    using assms space_not_letter(4)[OF assms] by (intro contains_ci_snoc) (auto simp: lower_consts)
  ultimately show ?thesis
    by (simp add: qualified_phrase_def contains_of_descent_snoc[OF assms])
qed

lemma qualified_phrase_lstrip: "qualified_phrase (dropWhile isspace s) = qualified_phrase s"
  by (induction s) (simp_all add: qualified_phrase_Cons)

lemma qualified_phrase_rstrip:
  "qualified_phrase (rev (dropWhile isspace (rev s))) = qualified_phrase s"
  by (induction s rule: rev_induct) (simp_all add: qualified_phrase_snoc)

lemma qualified_phrase_strip: "qualified_phrase (strip s) = qualified_phrase s"
  by (simp add: strip_def qualified_phrase_rstrip qualified_phrase_lstrip)

section \<open>The paths of the injector\<close>

lemma search_pattern_s:
  "re_search False pattern_s s \<noteq> None \<longleftrightarrow> (\<exists>i w. whole_word_at singular_forms s i w)"
  using re_search_word_alts[OF wordy_singular, of pattern_s s] by (simp add: run_pattern_s)

lemma search_pattern_p:
  "re_search False pattern_p s \<noteq> None \<longleftrightarrow> (\<exists>i w. whole_word_at plural_forms s i w)"
  using re_search_word_alts[OF wordy_plural, of pattern_p s] by (simp add: run_pattern_p)

lemma search_already_qualified_None:
  "re_search True already_qualified s = None \<longleftrightarrow> \<not> qualified_phrase s"
  using search_already_qualified[of s] by blast

lemma search_pattern_s_None:
  "re_search False pattern_s s = None \<longleftrightarrow> (\<forall>i w. \<not> whole_word_at singular_forms s i w)"
  using search_pattern_s[of s] by blast

lemma search_pattern_p_None:
  "re_search False pattern_p s = None \<longleftrightarrow> (\<forall>i w. \<not> whole_word_at plural_forms s i w)"
  using search_pattern_p[of s] by blast

lemma inject_qualified:
  assumes "qualified_phrase q"
  shows "add_sensitive_to_question q a =
     (if startswith (strip q) ''A patient '' \<or> startswith (strip q) ''a patient ''
      then Inr (Some (''A '' @ a @ '' patient '' @ drop 10 q)) else Inr None)"
proof -
  have "re_search True already_qualified (strip q) \<noteq> None"
    using assms by (simp only: search_already_qualified qualified_phrase_strip)
  then show ?thesis by (simp add: add_sensitive_to_question_def Let_def)
qed

lemma inject_unqualified:
  assumes "\<not> qualified_phrase q"
  shows "add_sensitive_to_question q a =
     (if re_search False pattern_s q \<noteq> None
      then map_sum id Some (re_sub pattern_s (''A '' @ a @ '' patient'') q)
      else if re_search False pattern_p q \<noteq> None
      then map_sum id Some (re_sub pattern_p (a @ '' patients'') q)
      else Inr None)"
proof -
  have "re_search True already_qualified (strip q) = None"
    using assms by (simp add: search_already_qualified_None qualified_phrase_strip)
  then show ?thesis by (simp add: add_sensitive_to_question_def Let_def)
qed

lemma re_sub_first_occurrence:
  assumes "wordy forms" and run: "\<And>i. run False r s (i, None) = word_alts forms s i"
    and "whole_word_at forms s i0 w0" and "backslash \<notin> set t"
  shows "re_search False r s \<noteq> None \<and>
         (\<exists>i w. whole_word_at forms s i w \<and> (\<forall>j<i. \<forall>v. \<not> whole_word_at forms s j v)
            \<and> re_sub r t s = Inr (take i s @ t @ drop (i + length w) s))"
proof -
  obtain i w g where m: "re_search False r s = Some (i, i + length w, g)"
    and w: "whole_word_at forms s i w" "\<forall>j<i. \<forall>v. \<not> whole_word_at forms s j v"
    using re_search_word_alts_first[OF assms(1) run assms(3)] by blast
  have "re_sub r t s = Inr (take i s @ t @ drop (i + length w) s)"
    using m by (simp add: re_sub_plain[OF assms(4)])
  then show ?thesis using m w by auto
qed

lemma inject_singular_lemma:
  assumes "\<not> qualified_phrase q" and "whole_word_at singular_forms q i0 w0"
    and "backslash \<notin> set a"
  shows "\<exists>i w. whole_word_at singular_forms q i w
           \<and> (\<forall>j<i. \<forall>v. \<not> whole_word_at singular_forms q j v)
           \<and> add_sensitive_to_question q a =
               Inr (Some (take i q @ ''A '' @ a @ '' patient'' @ drop (i + length w) q))"
proof -
  have t: "backslash \<notin> set (''A '' @ a @ '' patient'')" using assms(3) by simp
  from re_sub_first_occurrence[OF wordy_singular _ assms(2) t, of pattern_s]
  obtain i w where s: "re_search False pattern_s q \<noteq> None"
     and w: "whole_word_at singular_forms q i w" "\<forall>j<i. \<forall>v. \<not> whole_word_at singular_forms q j v"
     and r: "re_sub pattern_s (''A '' @ a @ '' patient'') q
              = Inr (take i q @ (''A '' @ a @ '' patient'') @ drop (i + length w) q)"
    by (auto simp: run_pattern_s)
  have "add_sensitive_to_question q a =
      Inr (Some (take i q @ ''A '' @ a @ '' patient'' @ drop (i + length w) q))"
    using s r by (simp add: inject_unqualified[OF assms(1)])
  then show ?thesis using w by blast
qed

lemma inject_plural_lemma:
  assumes "\<not> qualified_phrase q" and "\<forall>i w. \<not> whole_word_at singular_forms q i w"
    and "whole_word_at plural_forms q i0 w0" and "backslash \<notin> set a"
  shows "\<exists>i w. whole_word_at plural_forms q i w
           \<and> (\<forall>j<i. \<forall>v. \<not> whole_word_at plural_forms q j v)
           \<and> add_sensitive_to_question q a =
               Inr (Some (take i q @ a @ '' patients'' @ drop (i + length w) q))"
proof -
  have t: "backslash \<notin> set (a @ '' patients'')" using assms(4) by simp
  have ns: "re_search False pattern_s q = None"
    using assms(2) by (simp add: search_pattern_s_None)
  from re_sub_first_occurrence[OF wordy_plural _ assms(3) t, of pattern_p]
  obtain i w where s: "re_search False pattern_p q \<noteq> None"
     and w: "whole_word_at plural_forms q i w" "\<forall>j<i. \<forall>v. \<not> whole_word_at plural_forms q j v"
     and r: "re_sub pattern_p (a @ '' patients'') q
              = Inr (take i q @ (a @ '' patients'') @ drop (i + length w) q)"
    by (auto simp: run_pattern_p)
  have "add_sensitive_to_question q a =
      Inr (Some (take i q @ a @ '' patients'' @ drop (i + length w) q))"
    using s r ns by (simp add: inject_unqualified[OF assms(1)])
  then show ?thesis using w by blast
qed

lemma inject_no_reference:
  assumes "\<not> qualified_phrase q" and "\<forall>i w. \<not> whole_word_at singular_forms q i w"
    and "\<forall>i w. \<not> whole_word_at plural_forms q i w"
  shows "add_sensitive_to_question q a = Inr None"
proof -
  have "re_search False pattern_s q = None" "re_search False pattern_p q = None"
    using assms(2,3) by (simp_all add: search_pattern_s_None search_pattern_p_None)
  then show ?thesis by (simp add: inject_unqualified[OF assms(1)])
qed

section \<open>Properties of the injector\<close>

text \<open>
  C5. A question without a qualifying phrase, in which none of the four singular forms and
  neither of the two plural forms occurs as a whole word, gets no rewrite: the injector
  answers \<open>None\<close> for every attribute. A question whose only patient-like text lies
  inside a longer word, such as \<open>inpatient\<close>, is of this kind.
\<close>

theorem no_reference_no_match:
  assumes "\<not> qualified_phrase question"
    and "\<forall>i w. \<not> whole_word_at singular_forms question i w"
    and "\<forall>i w. \<not> whole_word_at plural_forms question i w"
  shows "add_sensitive_to_question question attribute = Inr None"
  using assms by (rule inject_no_reference)

theorem no_reference_no_match_witness:
  "\<not> qualified_phrase ''The inpatient was discharged''
   \<and> (\<forall>i w. \<not> whole_word_at singular_forms ''The inpatient was discharged'' i w)
   \<and> (\<forall>i w. \<not> whole_word_at plural_forms ''The inpatient was discharged'' i w)
   \<and> add_sensitive_to_question ''The inpatient was discharged'' ''Black'' = Inr None"
proof -
  have q: "re_search True already_qualified ''The inpatient was discharged'' = None"
    by code_simp
  have s: "re_search False pattern_s ''The inpatient was discharged'' = None"
    by code_simp
  have p: "re_search False pattern_p ''The inpatient was discharged'' = None"
    by code_simp
  have h1: "\<not> qualified_phrase ''The inpatient was discharged''"
    using q by (simp add: search_already_qualified_None)
  have h2: "\<forall>i w. \<not> whole_word_at singular_forms ''The inpatient was discharged'' i w"
    using s by (simp add: search_pattern_s_None)
  have h3: "\<forall>i w. \<not> whole_word_at plural_forms ''The inpatient was discharged'' i w"
    using p by (simp add: search_pattern_p_None)
  show ?thesis using h1 h2 h3 no_reference_no_match [OF h1 h2 h3, of "''Black''"] by blast
qed

end
